theory Spec2Isabelle
  imports Main "HOL-Library.AList"
begin

section \<open>Text primitives of the scraper\<close>

text \<open>
  A Python \<open>str\<close> is modelled as a \<open>string\<close>, a list of 8-bit characters, each read as
  the Unicode code point of the same number (U+0000 to U+00FF). The character classes
  below are Python's own on that range: \<open>str.isspace\<close> (which \<open>str.split\<close>,
  \<open>str.strip\<close> and the pattern class \<open>\s\<close> all use), the word characters of \<open>\w\<close>
  (\<open>str.isalnum\<close> or an underscore) and \<open>str.lower\<close>.
\<close>

definition isspace :: "char \<Rightarrow> bool" where
  "isspace c = (c \<in> set [CHR 0x09, CHR 0x0A, CHR 0x0B, CHR 0x0C, CHR 0x0D,
                          CHR 0x1C, CHR 0x1D, CHR 0x1E, CHR 0x1F, CHR 0x20,
                          CHR 0x85, CHR 0xA0])"

definition in_range :: "char \<Rightarrow> nat \<Rightarrow> nat \<Rightarrow> bool" where
  "in_range c lo hi = (lo \<le> of_char c \<and> (of_char c :: nat) \<le> hi)"

definition is_upper_ascii :: "char \<Rightarrow> bool" where
  "is_upper_ascii c = in_range c 0x41 0x5A"

definition is_word :: "char \<Rightarrow> bool" where
  "is_word c = (in_range c 0x30 0x39 \<or> in_range c 0x41 0x5A \<or> c = CHR ''_'' \<or>
                in_range c 0x61 0x7A \<or>
                c \<in> set [CHR 0xAA, CHR 0xB2, CHR 0xB3, CHR 0xB5, CHR 0xB9, CHR 0xBA,
                           CHR 0xBC, CHR 0xBD, CHR 0xBE] \<or>
                in_range c 0xC0 0xD6 \<or> in_range c 0xD8 0xF6 \<or> in_range c 0xF8 0xFF)"

definition lower_char :: "char \<Rightarrow> char" where
  "lower_char c =
     (if in_range c 0x41 0x5A \<or> in_range c 0xC0 0xD6 \<or> in_range c 0xD8 0xDE
      then char_of (of_char c + (32::nat)) else c)"

definition lower :: "string \<Rightarrow> string" where
  "lower s = map lower_char s"

definition strip :: "string \<Rightarrow> string" where
  "strip s = rev (dropWhile isspace (rev (dropWhile isspace s)))"

text \<open>\<open>s.replace(a, b)\<close> for single characters \<open>a\<close> and \<open>b\<close>.\<close>

definition replace_char :: "char \<Rightarrow> char \<Rightarrow> string \<Rightarrow> string" where
  "replace_char a b s = map (\<lambda>c. if c = a then b else c) s"

text \<open>
  \<open>s.split()\<close> without a separator: skip whitespace, take the run of other characters
  as a word, repeat. No empty word is produced.
\<close>

function split_ws :: "string \<Rightarrow> string list" where
  "split_ws s =
     (let t = dropWhile isspace s
      in if t = [] then []
         else takeWhile (\<lambda>c. \<not> isspace c) t # split_ws (dropWhile (\<lambda>c. \<not> isspace c) t))"
  by pat_completeness auto
termination
proof (relation "measure length", goal_cases)
  case 1
  show ?case by simp
next
  case (2 s t)
  then obtain c cs where t: "dropWhile isspace s = c # cs"
    by (cases "dropWhile isspace s") auto
  then have "\<not> isspace c"
    by (metis hd_dropWhile list.distinct(1) list.sel(1))
  then have "length (dropWhile (\<lambda>c. \<not> isspace c) (c # cs)) \<le> length cs"
    by (simp add: length_dropWhile_le)
  moreover have "length (c # cs) \<le> length s"
    using t length_dropWhile_le [of isspace s] by simp
  ultimately show ?case using 2 t by simp
qed

declare split_ws.simps [simp del]

text \<open>\<open>sep.join(ws)\<close>.\<close>

fun join :: "string \<Rightarrow> string list \<Rightarrow> string" where
  "join sep [] = []"
| "join sep [w] = w"
| "join sep (w # v # ws) = w @ sep @ join sep (v # ws)"

text \<open>\<open>_normalize_address\<close>: \<open>" ".join(addr.replace("\n", " ").split()).strip()\<close>.\<close>

definition normalize_address :: "string \<Rightarrow> string" where
  "normalize_address addr = strip (join '' '' (split_ws (replace_char (CHR 0x0A) CHR '' '' addr)))"

section \<open>The PO-Box pattern\<close>

text \<open>
  \<open>PO_BOX_PATTERN\<close> is a compiled regular expression. Its syntax tree has the
  constructs the pattern is written with; \<open>rmatch\<close> is the backtracking matcher of
  Python's \<open>re\<close> on them (greedy alternatives first), working on a cursor: the
  character before the position (\<open>None\<close> at the start of the text) and the text from
  the position on. It returns the cursors at which a match can end, in the order in
  which backtracking tries them.
\<close>

datatype atom =
    Lit char   \<comment> \<open>a literal character; under \<open>re.IGNORECASE\<close> both sides are lowercased\<close>
  | Space      \<comment> \<open>\<open>\s\<close>\<close>

datatype regex =
    Eps
  | Atom atom
  | Opt atom              \<comment> \<open>\<open>a?\<close>\<close>
  | Star atom             \<comment> \<open>\<open>a*\<close>\<close>
  | Boundary              \<comment> \<open>\<open>\b\<close>\<close>
  | Seq regex regex
  | Alt regex regex       \<comment> \<open>\<open>r|s\<close>\<close>

type_synonym cursor = "char option \<times> string"

fun atom_ok :: "atom \<Rightarrow> char \<Rightarrow> bool" where
  "atom_ok (Lit l) c = (lower_char c = lower_char l)"
| "atom_ok Space c = isspace c"

text \<open>
  \<open>\b\<close> holds where exactly one of the two neighbouring characters is a word
  character; the start and the end of the text count as non-word.
\<close>

definition is_word_opt :: "char option \<Rightarrow> bool" where
  "is_word_opt p = (case p of None \<Rightarrow> False | Some c \<Rightarrow> is_word c)"

definition first_opt :: "string \<Rightarrow> char option" where
  "first_opt s = (case s of [] \<Rightarrow> None | c # _ \<Rightarrow> Some c)"

definition last_opt :: "string \<Rightarrow> char option" where
  "last_opt s = (if s = [] then None else Some (last s))"

definition at_boundary :: "cursor \<Rightarrow> bool" where
  "at_boundary cur = (is_word_opt (fst cur) \<noteq> is_word_opt (first_opt (snd cur)))"

fun star_atom :: "atom \<Rightarrow> cursor \<Rightarrow> cursor list" where
  "star_atom a (p, []) = [(p, [])]"
| "star_atom a (p, c # cs) =
     (if atom_ok a c then star_atom a (Some c, cs) else []) @ [(p, c # cs)]"

definition one_atom :: "atom \<Rightarrow> cursor \<Rightarrow> cursor list" where
  "one_atom a cur =
     (case snd cur of [] \<Rightarrow> [] | c # cs \<Rightarrow> if atom_ok a c then [(Some c, cs)] else [])"

fun rmatch :: "regex \<Rightarrow> cursor \<Rightarrow> cursor list" where
  "rmatch Eps cur = [cur]"
| "rmatch (Atom a) cur = one_atom a cur"
| "rmatch (Opt a) cur = one_atom a cur @ [cur]"
| "rmatch (Star a) cur = star_atom a cur"
| "rmatch Boundary cur = (if at_boundary cur then [cur] else [])"
| "rmatch (Seq r q) cur = concat (map (rmatch q) (rmatch r cur))"
| "rmatch (Alt r q) cur = rmatch r cur @ rmatch q cur"

text \<open>
  \<open>pattern.search(text)\<close> tries every start position from left to right;
  \<open>search\<close> is its truth value.
\<close>

fun search_from :: "regex \<Rightarrow> cursor \<Rightarrow> bool" where
  "search_from r (p, []) = (rmatch r (p, []) \<noteq> [])"
| "search_from r (p, c # cs) = (rmatch r (p, c # cs) \<noteq> [] \<or> search_from r (Some c, cs))"

definition search :: "regex \<Rightarrow> string \<Rightarrow> bool" where
  "search r text = search_from r (None, text)"

fun seq :: "regex list \<Rightarrow> regex" where
  "seq [] = Eps"
| "seq [r] = r"
| "seq (r # rs) = Seq r (seq rs)"

definition lit :: "string \<Rightarrow> regex list" where
  "lit w = map (\<lambda>c. Atom (Lit c)) w"

text \<open>
  The three alternatives of the pattern, without the two \<open>\b\<close>:
  \<^verbatim>\<open>p\.?\s*o\.?\s*box|post\s*office\s*box|p\.?o\.?\.?box\<close>
\<close>

definition PO_BOX_PHRASE :: regex where
  "PO_BOX_PHRASE =
     Alt (seq (lit ''p'' @ [Opt (Lit CHR ''.''), Star Space] @ lit ''o'' @
               [Opt (Lit CHR ''.''), Star Space] @ lit ''box''))
    (Alt (seq (lit ''post'' @ [Star Space] @ lit ''office'' @ [Star Space] @ lit ''box''))
         (seq (lit ''p'' @ [Opt (Lit CHR ''.'')] @ lit ''o'' @
               [Opt (Lit CHR ''.''), Opt (Lit CHR ''.'')] @ lit ''box'')))"

definition PO_BOX_PATTERN :: regex where
  "PO_BOX_PATTERN = Seq Boundary (Seq PO_BOX_PHRASE Boundary)"

text \<open>\<open>_is_po_box_or_empty\<close>\<close>

definition is_po_box_or_empty :: "string \<Rightarrow> bool" where
  "is_po_box_or_empty text =
     (if text = [] \<or> strip text = [] then True else search PO_BOX_PATTERN text)"

section \<open>Detail sections and the acceptance gate\<close>

text \<open>
  A \<open>dict[str, str]\<close> is an association list in insertion order; \<open>AList.update\<close> is
  \<open>d[k] = v\<close> (a present key keeps its place), \<open>dict_get\<close> is \<open>d.get(k, default)\<close>.
\<close>

type_synonym dict = "(string \<times> string) list"

definition dict_get :: "dict \<Rightarrow> string \<Rightarrow> string \<Rightarrow> string" where
  "dict_get d k dflt = (case map_of d k of None \<Rightarrow> dflt | Some v \<Rightarrow> v)"

text \<open>\<open>needle in hay\<close> for strings.\<close>

fun contains :: "string \<Rightarrow> string \<Rightarrow> bool" where
  "contains needle [] = (needle = [])"
| "contains needle (c # cs) = (take (length needle) (c # cs) = needle \<or> contains needle cs)"

text \<open>\<open>_has_valid_address\<close>: the loop over \<open>details.items()\<close> with its early return.\<close>

fun has_valid_address :: "dict \<Rightarrow> bool" where
  "has_valid_address [] = False"
| "has_valid_address ((key, val) # items) =
     (if contains ''address'' (lower key) \<and> val \<noteq> [] \<and> \<not> is_po_box_or_empty val
      then True else has_valid_address items)"

section \<open>Pages as the extractor reads them\<close>

text \<open>
  The browser is outside the program. A page is modelled by what the locators of the
  extractor return on it: the rows of the results table, the detail sections and the
  "Next List" link. A site maps a URL to the page that \<open>page.goto\<close> loads, or to
  \<open>None\<close> where navigation raises (a timeout); the site does not change during a run.
\<close>

record table_row =
  cells :: "string list"                           \<comment> \<open>inner text of each \<open>td\<close>\<close>
  first_link :: "(string \<times> string option) option"  \<comment> \<open>first \<open>a\<close> of the first cell: text, \<open>href\<close>\<close>

record page =
  search_results :: "table_row list"      \<comment> \<open>\<open>#search-results table tbody tr\<close>\<close>
  detail_sections :: "string list list"   \<comment> \<open>each \<open>div.detailSection\<close>: texts of its spans\<close>
  next_list :: "string option option"     \<comment> \<open>first \<open>a[title="Next List"]\<close>: its \<open>href\<close>\<close>

type_synonym site = "string \<Rightarrow> page option"

record entity =
  corporate_name :: string
  document_number :: string
  status :: string

record result_row = entity +
  detail_path :: string

record detail_record = entity +
  detail_url :: string
  details :: dict

definition BASE_URL :: string where
  "BASE_URL = ''https://search.sunbiz.org''"

definition SEARCH_TERM :: string where
  "SEARCH_TERM = ''PLUMBER''"

definition startswith_slash :: "string \<Rightarrow> bool" where
  "startswith_slash s = (case s of [] \<Rightarrow> False | c # _ \<Rightarrow> c = CHR ''/'')"

text \<open>\<open>BASE_URL + href if href.startswith("/") else href\<close>\<close>

definition absolute_url :: "string \<Rightarrow> string" where
  "absolute_url href = (if startswith_slash href then BASE_URL @ href else href)"

text \<open>\<open>_get_next_list_url\<close>\<close>

definition get_next_list_url :: "page \<Rightarrow> string option" where
  "get_next_list_url pg =
     (case next_list pg of
        None \<Rightarrow> None
      | Some None \<Rightarrow> None
      | Some (Some href) \<Rightarrow> if href = [] then None else Some (absolute_url href))"

text \<open>\<open>_extract_detail_sections\<close>, with the dictionary built so far as accumulator.\<close>

fun extract_sections :: "string list list \<Rightarrow> dict \<Rightarrow> dict" where
  "extract_sections [] sections = sections"
| "extract_sections (spans # rest) sections =
     (if length spans < 2 then extract_sections rest sections
      else let label = strip (spans ! 0); val = strip (spans ! 1)
           in if label \<noteq> [] then extract_sections rest (AList.update label val sections)
              else extract_sections rest sections)"

definition extract_detail_sections :: "page \<Rightarrow> dict" where
  "extract_detail_sections pg = extract_sections (detail_sections pg) []"

text \<open>\<open>_extract_search_results\<close>\<close>

fun extract_rows :: "table_row list \<Rightarrow> result_row list" where
  "extract_rows [] = []"
| "extract_rows (tr # trs) =
     (if length (cells tr) < 3 then extract_rows trs
      else (case first_link tr of
              None \<Rightarrow> extract_rows trs
            | Some (text, href) \<Rightarrow>
                \<lparr>corporate_name = strip text,
                 document_number = strip (cells tr ! 1),
                 status = strip (cells tr ! 2),
                 detail_path = (case href of None \<Rightarrow> [] | Some h \<Rightarrow> h)\<rparr> # extract_rows trs))"

definition extract_search_results :: "page \<Rightarrow> result_row list" where
  "extract_search_results pg = extract_rows (search_results pg)"

section \<open>The search URL\<close>

text \<open>
  \<open>urllib.parse.quote(term, safe="")\<close>: letters, digits and \<open>_.-~\<close> stay, every other
  character becomes the \<open>%XX\<close> escapes of its UTF-8 bytes.
\<close>

definition hex_digit :: "nat \<Rightarrow> char" where
  "hex_digit n = ''0123456789ABCDEF'' ! (n mod 16)"

definition percent :: "nat \<Rightarrow> string" where
  "percent b = [CHR ''%'', hex_digit (b div 16), hex_digit b]"

definition utf8 :: "char \<Rightarrow> nat list" where
  "utf8 c = (let n = of_char c in if n < 128 then [n] else [192 + n div 64, 128 + n mod 64])"

definition unreserved :: "char \<Rightarrow> bool" where
  "unreserved c = (in_range c 0x30 0x39 \<or> in_range c 0x41 0x5A \<or> in_range c 0x61 0x7A \<or>
                   c \<in> set ''_.-~'')"

definition quote :: "string \<Rightarrow> string" where
  "quote s = concat (map (\<lambda>c. if unreserved c then [c] else concat (map percent (utf8 c))) s)"

definition build_search_url :: "string \<Rightarrow> string" where
  "build_search_url term =
     (let encoded = quote term
      in BASE_URL @ ''/Inquiry/CorporationSearch/SearchResults'' @
         ''?InquiryType=EntityName&inquiryDirectionType=ForwardList'' @
         ''&searchNameOrder='' @ encoded @ ''911%20P010000464770&SearchTerm='' @ encoded @
         ''&entityId=P01000046477&listNameOrder='' @ encoded @
         ''2WINEPAINTINGRENOVATION%20L250000424390'')"

section \<open>The seen store\<close>

text \<open>
  The file system maps a path to what is there. \<open>str.splitlines\<close> breaks a text at
  \<open>\n\<close>, \<open>\r\<close>, \<open>\r\n\<close>, \<open>\v\<close>, \<open>\f\<close>, \<open>\x1c\<close>, \<open>\x1d\<close>, \<open>\x1e\<close> and \<open>\x85\<close>; the flag
  of \<open>splitlines_from\<close> says that the previous character was \<open>\r\<close>, so that a \<open>\n\<close>
  right after it belongs to the same break.
\<close>

datatype fs_entry = File string | Directory

type_synonym filesystem = "string \<Rightarrow> fs_entry option"

datatype error =
    NavigationError string    \<comment> \<open>\<open>page.goto\<close> or the wait after it raised, at this URL\<close>
  | IsADirectoryError string  \<comment> \<open>\<open>read_text\<close> on a directory\<close>

definition is_linebreak :: "char \<Rightarrow> bool" where
  "is_linebreak c = (c \<in> set [CHR 0x0A, CHR 0x0B, CHR 0x0C, CHR 0x0D,
                                CHR 0x1C, CHR 0x1D, CHR 0x1E, CHR 0x85])"

fun splitlines_from :: "string \<Rightarrow> bool \<Rightarrow> string \<Rightarrow> string list" where
  "splitlines_from line after_cr [] = (if line = [] then [] else [line])"
| "splitlines_from line after_cr (c # cs) =
     (if after_cr \<and> c = CHR 0x0A then splitlines_from line False cs
      else if is_linebreak c then line # splitlines_from [] (c = CHR 0x0D) cs
      else splitlines_from (line @ [c]) False cs)"

definition splitlines :: "string \<Rightarrow> string list" where
  "splitlines text = splitlines_from [] False text"

text \<open>
  Lines 126 to 130 of \<open>fetch_sunbiz_data\<close>: the seen set at the start of a run.
  \<open>seen_path\<close> is \<open>None\<close> or a path; an empty string is falsy like \<open>None\<close>.
\<close>

definition load_seen :: "filesystem \<Rightarrow> string option \<Rightarrow> error + string set" where
  "load_seen fs seen_path =
     (case seen_path of
        None \<Rightarrow> Inr {}
      | Some p \<Rightarrow>
          if p = [] then Inr {}
          else (case fs p of
                  None \<Rightarrow> Inr {}
                | Some Directory \<Rightarrow> Inl (IsADirectoryError p)
                | Some (File text) \<Rightarrow>
                    Inr (set (map strip (filter (\<lambda>line. strip line \<noteq> []) (splitlines text))))))"

section \<open>The pipeline\<close>

record run_state =
  seen :: "string set"
  results :: "detail_record list"
  progress :: "nat list"    \<comment> \<open>the arguments \<open>on_progress\<close> was called with, in order\<close>

text \<open>\<open>max_results is not None and len(results) >= max_results\<close>\<close>

definition cap_reached :: "int option \<Rightarrow> detail_record list \<Rightarrow> bool" where
  "cap_reached max_results rs =
     (case max_results of None \<Rightarrow> False | Some n \<Rightarrow> n \<le> int (length rs))"

text \<open>\<open>details.get("Principal Address", "").strip()\<close>\<close>

definition principal_address :: "dict \<Rightarrow> string" where
  "principal_address d = strip (dict_get d ''Principal Address'' [])"

text \<open>
  The \<open>for row in rows\<close> loop (lines 141 to 168). \<open>on_progress\<close> says whether the
  callback was given.
\<close>

fun process_rows ::
  "site \<Rightarrow> int option \<Rightarrow> bool \<Rightarrow> result_row list \<Rightarrow> run_state \<Rightarrow> error + run_state" where
  "process_rows web max_results on_progress [] st = Inr st"
| "process_rows web max_results on_progress (row # rows) st =
     (if cap_reached max_results (results st) then Inr st
      else
       (case web (absolute_url (detail_path row)) of
          None \<Rightarrow> Inl (NavigationError (absolute_url (detail_path row)))
        | Some pg \<Rightarrow>
            if \<not> has_valid_address (extract_detail_sections pg)
            then process_rows web max_results on_progress rows st
            else if principal_address (extract_detail_sections pg) = []
            then process_rows web max_results on_progress rows st
            else if normalize_address (principal_address (extract_detail_sections pg)) \<in> seen st
            then process_rows web max_results on_progress rows st
            else process_rows web max_results on_progress rows
                   \<lparr>seen = insert (normalize_address (principal_address (extract_detail_sections pg)))
                             (seen st),
                    results = results st @
                      [\<lparr>corporate_name = corporate_name row,
                        document_number = document_number row,
                        status = status row,
                        detail_url = absolute_url (detail_path row),
                        details = extract_detail_sections pg\<rparr>],
                    progress = (if on_progress then progress st @ [Suc (length (results st))]
                                else progress st)\<rparr>))"

text \<open>
  The \<open>while current_url\<close> loop (lines 136 to 174). It need not terminate, so it is a
  partial function: \<open>None\<close> is a run that never leaves the loop, \<open>Some (Inl e)\<close> one
  that raises, \<open>Some (Inr st)\<close> one that leaves it in state \<open>st\<close>.
\<close>

partial_function (option) fetch_loop ::
  "site \<Rightarrow> int option \<Rightarrow> bool \<Rightarrow> string option \<Rightarrow> run_state \<Rightarrow> (error + run_state) option" where
  "fetch_loop web max_results on_progress current_url st =
     (case current_url of
        None \<Rightarrow> Some (Inr st)
      | Some url \<Rightarrow>
          if url = [] then Some (Inr st)
          else (case web url of
                  None \<Rightarrow> Some (Inl (NavigationError url))
                | Some pg \<Rightarrow>
                   (case process_rows web max_results on_progress (extract_search_results pg) st of
                      Inl e \<Rightarrow> Some (Inl e)
                    | Inr st' \<Rightarrow>
                        if cap_reached max_results (results st') then Some (Inr st')
                        else (case web url of
                                None \<Rightarrow> Some (Inl (NavigationError url))
                              | Some pg' \<Rightarrow>
                                  fetch_loop web max_results on_progress
                                    (get_next_list_url pg') st'))))"

text \<open>
  \<open>fetch_sunbiz_data\<close> up to the end of the loop, and its return value. The files
  written after the loop (lines 176 to 189) are not part of the model.
\<close>

definition resolve_search_url :: "string option \<Rightarrow> string option \<Rightarrow> string" where
  "resolve_search_url search_url search_term =
     (case search_url of
        Some url \<Rightarrow> url
      | None \<Rightarrow> build_search_url
                  (case search_term of None \<Rightarrow> SEARCH_TERM
                   | Some t \<Rightarrow> if t = [] then SEARCH_TERM else t))"

definition fetch_sunbiz_data ::
  "site \<Rightarrow> filesystem \<Rightarrow> string option \<Rightarrow> string option \<Rightarrow> int option \<Rightarrow> bool \<Rightarrow>
   string option \<Rightarrow> (error + detail_record list) option" where
  "fetch_sunbiz_data web fs search_url search_term max_results on_progress seen_path =
     (case load_seen fs seen_path of
        Inl e \<Rightarrow> Some (Inl e)
      | Inr seen0 \<Rightarrow>
          (case fetch_loop web max_results on_progress
                  (Some (resolve_search_url search_url search_term))
                  \<lparr>seen = seen0, results = [], progress = []\<rparr> of
             None \<Rightarrow> None
           | Some (Inl e) \<Rightarrow> Some (Inl e)
           | Some (Inr st) \<Rightarrow> Some (Inr (results st))))"

section \<open>The job queue worker\<close>

text \<open>
  A job is the tuple put on \<open>request_queue\<close>: chat id, keyword, count. The transport,
  the executor and the file system are outside the program; \<open>replies\<close> holds what they
  answer during one iteration of the worker loop. An awaited call returns (\<open>None\<close>)
  or raises: \<open>Exception\<close> stands for any exception that \<open>except Exception\<close> catches,
  \<open>CancelledError\<close> for the cancellation of the worker task, which it does not catch.
\<close>

type_synonym job = "int \<times> string \<times> int"

datatype exn = Exception | CancelledError

datatype notice =
    Processing         \<comment> \<open>"Procesando: ..." (line 67)\<close>
  | NoResultsOrError   \<comment> \<open>"No se encontraron direcciones nuevas o hubo un error. ..." (line 81)\<close>
  | ErrorProcessing    \<comment> \<open>"Error al procesar: ..." (line 98)\<close>

datatype event =
    Enqueued job
  | Dequeued job
  | SendMessage int notice "exn option"   \<comment> \<open>chat id, text, what the await did\<close>
  | FetchStart string int                  \<comment> \<open>\<open>run_fetch_sync\<close> handed to the executor\<close>
  | FetchEnd                               \<comment> \<open>the executor's future is done\<close>
  | SendDocument int string "exn option"   \<comment> \<open>chat id, path of the text file\<close>

record replies =
  processing :: "exn option"         \<comment> \<open>\<open>await bot.send_message\<close>, line 67\<close>
  fetch_cancelled :: bool            \<comment> \<open>the task is cancelled while it awaits the executor\<close>
  mkdir_fails :: bool                \<comment> \<open>\<open>data_dir.mkdir\<close>, line 40\<close>
  fetch_outcome :: "error + detail_record list"  \<comment> \<open>\<open>fetch_sunbiz_data\<close> raises or returns\<close>
  txt_exists :: bool                 \<comment> \<open>\<open>txt_path.exists()\<close>, line 53\<close>
  txt_still_exists :: bool           \<comment> \<open>\<open>txt_path.exists()\<close>, line 80\<close>
  notice :: "exn option"             \<comment> \<open>\<open>await bot.send_message\<close>, line 81\<close>
  document :: "exn option"           \<comment> \<open>\<open>open\<close>, \<open>stat\<close> and \<open>await bot.send_document\<close>, lines 86 to 92\<close>
  unlink_fails :: bool               \<comment> \<open>\<open>txt_path.unlink\<close>, line 93\<close>
  error_notice :: "exn option"       \<comment> \<open>\<open>await bot.send_message\<close>, line 98\<close>

text \<open>\<open>str(n)\<close> for a length.\<close>

fun str_nat :: "nat \<Rightarrow> string" where
  "str_nat n =
     (if n < 10 then [''0123456789'' ! n]
      else str_nat (n div 10) @ [''0123456789'' ! (n mod 10)])"

declare str_nat.simps [simp del]

text \<open>\<open>data_dir / f"{term_clean}{len(results)}.txt"\<close>\<close>

definition txt_path_of :: "string \<Rightarrow> string \<Rightarrow> nat \<Rightarrow> string" where
  "txt_path_of data_dir term n =
     data_dir @ ''/'' @ filter (\<lambda>c. c \<noteq> CHR '' '') (lower term) @ str_nat n @ ''.txt''"

text \<open>
  \<open>run_fetch_sync\<close>: \<open>Inl\<close> is an exception that leaves it (only \<open>mkdir\<close> stands outside
  its \<open>try\<close>), \<open>Inr\<close> its return value, a path or \<open>None\<close>.
\<close>

definition run_fetch_sync :: "replies \<Rightarrow> string \<Rightarrow> string \<Rightarrow> exn + string option" where
  "run_fetch_sync r term data_dir =
     (if mkdir_fails r then Inl Exception
      else (case fetch_outcome r of
              Inl e \<Rightarrow> Inr None
            | Inr rs \<Rightarrow>
                if rs = [] then Inr None
                else if txt_exists r then Inr (Some (txt_path_of data_dir term (length rs)))
                else Inr None))"

text \<open>
  The body of the \<open>try\<close> in \<open>queue_worker\<close> after \<open>request_queue.get()\<close> has returned
  the job (lines 64 to 93): the events it causes and the exception that leaves it, if any.
\<close>

definition try_body :: "int \<Rightarrow> string \<Rightarrow> job \<Rightarrow> replies \<Rightarrow> event list \<times> exn option" where
  "try_body max_addresses data_dir job r =
     (case job of (chat_id, keyword, count0) \<Rightarrow>
        (case processing r of
           Some e \<Rightarrow> ([SendMessage chat_id Processing (Some e)], Some e)
         | None \<Rightarrow>
            (let started = [SendMessage chat_id Processing None,
                            FetchStart keyword (min count0 max_addresses)]
             in if fetch_cancelled r then (started, Some CancelledError)
                else (case run_fetch_sync r keyword data_dir of
                        Inl e \<Rightarrow> (started @ [FetchEnd], Some e)
                      | Inr None \<Rightarrow>
                          (started @ [FetchEnd, SendMessage chat_id NoResultsOrError (notice r)],
                           notice r)
                      | Inr (Some txt_path) \<Rightarrow>
                          if \<not> txt_still_exists r
                          then (started @
                                  [FetchEnd, SendMessage chat_id NoResultsOrError (notice r)],
                                notice r)
                          else (case document r of
                                  Some e \<Rightarrow>
                                    (started @ [FetchEnd, SendDocument chat_id txt_path (Some e)],
                                     Some e)
                                | None \<Rightarrow>
                                    (started @ [FetchEnd, SendDocument chat_id txt_path None],
                                     if unlink_fails r then Some Exception else None))))))"

record bot =
  request_queue :: "job list"
  queue_size :: int
  trace :: "event list"
  stopped :: bool     \<comment> \<open>the worker loop has been left\<close>

text \<open>
  One iteration of \<open>while True\<close> in \<open>queue_worker\<close>. With an empty queue the worker
  stays in \<open>request_queue.get()\<close>. \<open>CancelledError\<close> leaves the loop, from the \<open>try\<close>
  by \<open>break\<close> and from the handler by propagating.
\<close>

definition worker_turn :: "int \<Rightarrow> string \<Rightarrow> replies \<Rightarrow> bot \<Rightarrow> bot" where
  "worker_turn max_addresses data_dir r b =
     (if stopped b then b
      else (case request_queue b of
              [] \<Rightarrow> b
            | job # rest \<Rightarrow>
               (case try_body max_addresses data_dir job r of
                  (evs, raised) \<Rightarrow>
                    (let b' = b\<lparr>request_queue := rest,
                                 queue_size := max 0 (queue_size b - 1),
                                 trace := trace b @ Dequeued job # evs\<rparr>
                     in case raised of
                          None \<Rightarrow> b'
                        | Some CancelledError \<Rightarrow> b'\<lparr>stopped := True\<rparr>
                        | Some Exception \<Rightarrow>
                            b'\<lparr>trace := trace b' @
                                  [SendMessage (fst job) ErrorProcessing (error_notice r)],
                               stopped := (error_notice r = Some CancelledError)\<rparr>))))"

text \<open>
  \<open>handle_message\<close> from line 117 on, for a message whose keyword and count have been
  parsed: clamp the count, put the job on the queue, count it.
\<close>

definition handle_message :: "int \<Rightarrow> job \<Rightarrow> bot \<Rightarrow> bot" where
  "handle_message max_addresses msg b =
     (case msg of (chat_id, keyword, count0) \<Rightarrow>
        b\<lparr>request_queue := request_queue b @ [(chat_id, keyword, min (max 1 count0) max_addresses)],
          queue_size := queue_size b + 1,
          trace := trace b @ [Enqueued (chat_id, keyword, min (max 1 count0) max_addresses)]\<rparr>)"

text \<open>
  The event loop runs one worker task (\<open>post_init\<close> creates it once) and the message
  handlers. A schedule lists what runs, in order; a handler that runs while the worker
  awaits only appends to the queue, so it is placed before or after the worker's turn.
\<close>

datatype action = Message job | Turn replies

fun run :: "int \<Rightarrow> string \<Rightarrow> action list \<Rightarrow> bot \<Rightarrow> bot" where
  "run max_addresses data_dir [] b = b"
| "run max_addresses data_dir (Message msg # acts) b =
     run max_addresses data_dir acts (handle_message max_addresses msg b)"
| "run max_addresses data_dir (Turn r # acts) b =
     run max_addresses data_dir acts (worker_turn max_addresses data_dir r b)"

definition start :: bot where
  "start = \<lparr>request_queue = [], queue_size = 0, trace = [], stopped = False\<rparr>"

section \<open>Words and whitespace runs\<close>

text \<open>
  \<open>starts_space\<close> holds of a text at whose start a word ends; a good word is what
  \<open>split_ws\<close> returns: not empty and free of whitespace.
\<close>

definition starts_space :: "string \<Rightarrow> bool" where
  "starts_space s = (case s of [] \<Rightarrow> True | c # _ \<Rightarrow> isspace c)"

definition good_word :: "string \<Rightarrow> bool" where
  "good_word w = (w \<noteq> [] \<and> (\<forall>c\<in>set w. \<not> isspace c))"

text \<open>
  Two texts differ only in their whitespace when one is reached from the other by
  replacing a whitespace character (a line break, a space) by another one, by making a
  run of whitespace longer or shorter, and by adding or removing whitespace at the ends.
\<close>

inductive ws_equiv :: "string \<Rightarrow> string \<Rightarrow> bool" where
  same: "ws_equiv x x"
| sym: "ws_equiv x y \<Longrightarrow> ws_equiv y x"
| trans: "ws_equiv x y \<Longrightarrow> ws_equiv y z \<Longrightarrow> ws_equiv x z"
| kind: "isspace a \<Longrightarrow> isspace b \<Longrightarrow> ws_equiv (u @ a # v) (u @ b # v)"
| run: "isspace a \<Longrightarrow> isspace b \<Longrightarrow> ws_equiv (u @ a # v) (u @ a # b # v)"
| leading: "isspace a \<Longrightarrow> ws_equiv (a # x) x"
| trailing: "isspace a \<Longrightarrow> ws_equiv (x @ [a]) x"

section \<open>What a pattern denotes\<close>

text \<open>
  The meaning of a pattern, stated apart from the matcher: \<open>denotes r p m f\<close> says that
  the pattern \<open>r\<close> matches the text \<open>m\<close> when the character before \<open>m\<close> is \<open>p\<close> and the
  text that follows is \<open>f\<close> (both are looked at by \<open>\b\<close> only). A text contains a match
  of \<open>r\<close> when it is \<open>pre @ m @ suf\<close> with \<open>matched_by r pre m suf\<close>.
\<close>

definition prev_after :: "char option \<Rightarrow> string \<Rightarrow> char option" where
  "prev_after p m = (if m = [] then p else Some (last m))"

fun denotes :: "regex \<Rightarrow> char option \<Rightarrow> string \<Rightarrow> string \<Rightarrow> bool" where
  "denotes Eps p m f = (m = [])"
| "denotes (Atom a) p m f = (\<exists>c. m = [c] \<and> atom_ok a c)"
| "denotes (Opt a) p m f = (m = [] \<or> (\<exists>c. m = [c] \<and> atom_ok a c))"
| "denotes (Star a) p m f = (\<forall>c\<in>set m. atom_ok a c)"
| "denotes Boundary p m f = (m = [] \<and> at_boundary (p, f))"
| "denotes (Seq r q) p m f =
     (\<exists>m1 m2. m = m1 @ m2 \<and> denotes r p m1 (m2 @ f) \<and> denotes q (prev_after p m1) m2 f)"
| "denotes (Alt r q) p m f = (denotes r p m f \<or> denotes q p m f)"

definition matched_by :: "regex \<Rightarrow> string \<Rightarrow> string \<Rightarrow> string \<Rightarrow> bool" where
  "matched_by r pre m suf = denotes r (last_opt pre) m suf"

text \<open>\<open>pattern.fullmatch(text)\<close>, as a truth value.\<close>

definition fullmatch :: "regex \<Rightarrow> string \<Rightarrow> bool" where
  "fullmatch r text = list_ex (\<lambda>cur. snd cur = []) (rmatch r (None, text))"

text \<open>
  The literal a pattern must begin with, and the one it must end with, where the
  syntax tree fixes them.
\<close>

fun begins_with :: "char \<Rightarrow> regex \<Rightarrow> bool" where
  "begins_with l (Atom (Lit l')) = (l = l')"
| "begins_with l (Seq r q) = begins_with l r"
| "begins_with l (Alt r q) = (begins_with l r \<and> begins_with l q)"
| "begins_with l r = False"

fun ends_with :: "char \<Rightarrow> regex \<Rightarrow> bool" where
  "ends_with l (Atom (Lit l')) = (l = l')"
| "ends_with l (Seq r q) = ends_with l q"
| "ends_with l (Alt r q) = (ends_with l r \<and> ends_with l q)"
| "ends_with l r = False"

section \<open>Normalisation of addresses\<close>

lemma split_ws_Nil [simp]: "split_ws [] = []"
  by (simp add: split_ws.simps)

lemma split_ws_Cons:
  "split_ws (c # s) =
     (if isspace c then split_ws s
      else if starts_space s then [c] # split_ws s
      else (c # hd (split_ws s)) # tl (split_ws s))"
proof (cases "isspace c")
  case True
  then show ?thesis
    by (simp add: split_ws.simps [of "c # s"] split_ws.simps [of s])
next
  case nsp: False
  show ?thesis
  proof (cases s)
    case Nil
    with nsp show ?thesis
      by (simp add: split_ws.simps [of "[c]"] starts_space_def)
  next
    case (Cons d s')
    with nsp show ?thesis
      by (simp add: split_ws.simps [of "c # d # s'"] split_ws.simps [of "d # s'"]
            starts_space_def Let_def)
  qed
qed

lemma split_ws_space: "isspace c \<Longrightarrow> split_ws (c # s) = split_ws s"
  by (simp add: split_ws_Cons)

lemma split_ws_word:
  "\<not> isspace c \<Longrightarrow>
     split_ws (c # s) =
       (c # takeWhile (\<lambda>c. \<not> isspace c) s) # split_ws (dropWhile (\<lambda>c. \<not> isspace c) s)"
  by (simp add: split_ws.simps [of "c # s"])

lemmas split_ws_eval = split_ws_space split_ws_word isspace_def

lemma split_ws_eq_Nil: "split_ws s = [] \<longleftrightarrow> (\<forall>c\<in>set s. isspace c)"
  by (induction s) (auto simp: split_ws_Cons)

lemma starts_space_split: "\<not> starts_space s \<Longrightarrow> split_ws s \<noteq> []"
  by (cases s) (auto simp: starts_space_def split_ws_eq_Nil)

lemma split_ws_good: "w \<in> set (split_ws s) \<Longrightarrow> good_word w"
proof (induction s arbitrary: w)
  case Nil
  then show ?case by simp
next
  case (Cons c s)
  show ?case
  proof (cases "isspace c")
    case True
    with Cons show ?thesis by (simp add: split_ws_Cons)
  next
    case nsp: False
    show ?thesis
    proof (cases "starts_space s")
      case True
      with nsp Cons show ?thesis by (auto simp: split_ws_Cons good_word_def)
    next
      case False
      then obtain a list where al: "split_ws s = a # list"
        using starts_space_split by (cases "split_ws s") auto
      then have "good_word a" and "\<forall>v\<in>set list. good_word v"
        using Cons.IH by auto
      with nsp False al Cons.prems show ?thesis
        by (auto simp: split_ws_Cons good_word_def)
    qed
  qed
qed

lemma split_ws_word_append:
  "good_word w \<Longrightarrow> starts_space u \<Longrightarrow> split_ws (w @ u) = w # split_ws u"
proof (induction w)
  case Nil
  then show ?case by (simp add: good_word_def)
next
  case (Cons c w)
  show ?case
  proof (cases w)
    case Nil
    with Cons.prems show ?thesis by (simp add: split_ws_Cons good_word_def)
  next
    case (Cons d w')
    with Cons.prems Cons.IH show ?thesis
      by (simp add: split_ws_Cons good_word_def starts_space_def)
  qed
qed

lemma split_ws_join:
  "\<forall>w\<in>set ws. good_word w \<Longrightarrow> split_ws (join '' '' ws) = ws"
proof (induction ws)
  case Nil
  then show ?case by simp
next
  case (Cons w ws)
  show ?case
  proof (cases ws)
    case Nil
    with Cons.prems show ?thesis
      using split_ws_word_append [of w "[]"] by (simp add: starts_space_def)
  next
    case (Cons v vs)
    with Cons.prems Cons.IH show ?thesis
      using split_ws_word_append [of w "'' '' @ join '' '' (v # vs)"]
      by (simp add: starts_space_def isspace_def split_ws_Cons)
  qed
qed

lemma strip_id: "s = [] \<or> (\<not> isspace (hd s) \<and> \<not> isspace (last s)) \<Longrightarrow> strip s = s"
proof (cases "s = []")
  case True
  then show ?thesis by (simp add: strip_def)
next
  case False
  assume "s = [] \<or> (\<not> isspace (hd s) \<and> \<not> isspace (last s))"
  with False have h: "\<not> isspace (hd s)" and l: "\<not> isspace (hd (rev s))"
    by (simp_all add: hd_rev)
  have d: "dropWhile P xs = xs" if "xs \<noteq> []" "\<not> P (hd xs)" for P and xs :: string
    using that by (cases xs) auto
  from False h l show ?thesis by (simp add: strip_def d)
qed

lemma join_ends:
  "\<forall>w\<in>set ws. good_word w \<Longrightarrow> ws \<noteq> [] \<Longrightarrow>
     join sep ws \<noteq> [] \<and> hd (join sep ws) = hd (hd ws) \<and> last (join sep ws) = last (last ws)"
proof (induction ws)
  case Nil
  then show ?case by simp
next
  case (Cons w ws)
  then show ?case by (cases ws) (auto simp: good_word_def)
qed

lemma strip_join: "\<forall>w\<in>set ws. good_word w \<Longrightarrow> strip (join sep ws) = join sep ws"
proof (cases ws)
  case Nil
  then show ?thesis by (simp add: strip_def)
next
  case (Cons v vs)
  assume g: "\<forall>w\<in>set ws. good_word w"
  with Cons have "good_word (hd ws)" "good_word (last ws)" by auto
  then have "\<not> isspace (hd (hd ws))" "\<not> isspace (last (last ws))"
    by (auto simp: good_word_def)
  with join_ends [OF g, of sep] Cons show ?thesis
    by (intro strip_id) auto
qed

lemma split_ws_map:
  assumes "\<And>c. isspace (f c) = isspace c" and "\<And>c. \<not> isspace c \<Longrightarrow> f c = c"
  shows "split_ws (map f s) = split_ws s"
proof (induction s)
  case Nil
  then show ?case by simp
next
  case (Cons c s)
  have "starts_space (map f s) = starts_space s"
    by (cases s) (simp_all add: starts_space_def assms)
  with Cons assms show ?case by (simp add: split_ws_Cons)
qed

lemma split_ws_replace: "split_ws (replace_char (CHR 0x0A) CHR '' '' s) = split_ws s"
  unfolding replace_char_def by (rule split_ws_map) (auto simp: isspace_def)

lemma normalize_address_eq: "normalize_address x = join '' '' (split_ws x)"
  by (simp add: normalize_address_def split_ws_replace strip_join split_ws_good)

lemma normalize_idem: "normalize_address (normalize_address x) = normalize_address x"
  by (simp add: normalize_address_eq split_ws_join split_ws_good)



lemma starts_space_append:
  "starts_space x = starts_space y \<Longrightarrow> starts_space (u @ x) = starts_space (u @ y)"
  by (cases u) (simp_all add: starts_space_def)

lemma split_ws_append_cong:
  "split_ws x = split_ws y \<Longrightarrow> starts_space x = starts_space y \<Longrightarrow>
     split_ws (u @ x) = split_ws (u @ y)"
proof (induction u)
  case Nil
  then show ?case by simp
next
  case (Cons c u)
  have st: "starts_space (u @ x) = starts_space (u @ y)"
    using Cons.prems(2) by (rule starts_space_append)
  have ih: "split_ws (u @ x) = split_ws (u @ y)"
    using Cons.prems by (rule Cons.IH)
  show ?case by (simp only: append_Cons split_ws_Cons st ih)
qed

lemma split_ws_trailing: "isspace a \<Longrightarrow> split_ws (x @ [a]) = split_ws x"
proof (induction x)
  case Nil
  then show ?case by (simp add: split_ws_Cons)
next
  case (Cons c x)
  have st: "starts_space (x @ [a]) = starts_space x"
    using Cons.prems by (cases x) (simp_all add: starts_space_def)
  have ih: "split_ws (x @ [a]) = split_ws x"
    using Cons.prems by (rule Cons.IH)
  show ?case by (simp only: append_Cons split_ws_Cons st ih)
qed

lemma ws_equiv_split: "ws_equiv x y \<Longrightarrow> split_ws x = split_ws y"
proof (induction rule: ws_equiv.induct)
  case (kind a b u v)
  then show ?case
    by (intro split_ws_append_cong) (simp_all add: split_ws_Cons starts_space_def)
next
  case (run a b u v)
  then show ?case
    by (intro split_ws_append_cong) (simp_all add: split_ws_Cons starts_space_def)
next
  case (leading a x)
  then show ?case by (simp add: split_ws_Cons)
next
  case (trailing a x)
  then show ?case by (simp add: split_ws_trailing)
qed simp_all

text \<open>
  Claim C6. Normalising an address twice gives the same as normalising it once; two
  texts that differ only in line breaks and in the lengths of their whitespace runs,
  also at the ends, have the same normal form; in particular \<open>"A\n  B"\<close> and \<open>"A B"\<close>.
\<close>

theorem normalize_idempotent_and_whitespace_insensitive:
  "normalize_address (normalize_address x) = normalize_address x \<and>
   (ws_equiv x y \<longrightarrow> normalize_address x = normalize_address y) \<and>
   normalize_address [CHR ''A'', CHR 0x0A, CHR '' '', CHR '' '', CHR ''B''] =
     normalize_address ''A B''"
proof (intro conjI impI)
  show "normalize_address (normalize_address x) = normalize_address x"
    by (rule normalize_idem)
  show "normalize_address x = normalize_address y" if "ws_equiv x y"
    using ws_equiv_split [OF that] by (simp add: normalize_address_eq)
  show "normalize_address [CHR ''A'', CHR 0x0A, CHR '' '', CHR '' '', CHR ''B''] =
     normalize_address ''A B''"
    by (simp add: normalize_address_eq split_ws_eval)
qed

theorem normalize_whitespace_witness:
  "ws_equiv '' A  B'' ''A B'' \<and>
   normalize_address '' A  B'' = normalize_address ''A B'' \<and>
   normalize_address ''A B'' = ''A B''"
proof -
  have sp: "isspace CHR '' ''" by (simp add: isspace_def)
  have 1: "ws_equiv '' A  B'' ''A  B''"
    using ws_equiv.leading [OF sp, of "''A  B''"] by simp
  have 2: "ws_equiv ''A B'' ''A  B''"
    using ws_equiv.run [OF sp sp, of "''A''" "''B''"] by simp
  have e: "ws_equiv '' A  B'' ''A B''"
    by (rule ws_equiv.trans [OF 1 ws_equiv.sym [OF 2]])
  have n: "normalize_address ''A B'' = ''A B''"
    by (simp add: normalize_address_eq split_ws_eval)
  have "ws_equiv '' A  B'' ''A B'' \<longrightarrow>
          normalize_address '' A  B'' = normalize_address ''A B''"
    using normalize_idempotent_and_whitespace_insensitive [of "'' A  B''" "''A B''"]
    by (elim conjE)
  from this e have eq: "normalize_address '' A  B'' = normalize_address ''A B''"
    by (rule mp)
  from e eq n show ?thesis by (intro conjI)
qed

section \<open>The matcher and the meaning of the pattern\<close>

lemma prev_after_Nil [simp]: "prev_after p [] = p"
  by (simp add: prev_after_def)

lemma prev_after_Cons [simp]: "prev_after p (c # m) = prev_after (Some c) m"
  by (simp add: prev_after_def)

lemma prev_after_append [simp]: "prev_after p (m1 @ m2) = prev_after (prev_after p m1) m2"
  by (simp add: prev_after_def)

lemma prev_after_None: "prev_after None m = last_opt m"
  by (simp add: prev_after_def last_opt_def)

lemma star_atom_iff:
  "(p', s') \<in> set (star_atom a (p, s)) \<longleftrightarrow>
     (\<exists>m. s = m @ s' \<and> p' = prev_after p m \<and> (\<forall>c\<in>set m. atom_ok a c))"
proof (induction s arbitrary: p)
  case Nil
  then show ?case by auto
next
  case (Cons c cs)
  show ?case
  proof
    assume "(p', s') \<in> set (star_atom a (p, c # cs))"
    then consider "atom_ok a c" "(p', s') \<in> set (star_atom a (Some c, cs))"
      | "p' = p" "s' = c # cs"
      by (auto split: if_splits)
    then show "\<exists>m. c # cs = m @ s' \<and> p' = prev_after p m \<and> (\<forall>c\<in>set m. atom_ok a c)"
    proof cases
      case 1
      then obtain m where "cs = m @ s'" "p' = prev_after (Some c) m" "\<forall>c\<in>set m. atom_ok a c"
        using Cons.IH by blast
      with 1 have "c # cs = (c # m) @ s' \<and> p' = prev_after p (c # m) \<and>
                   (\<forall>d\<in>set (c # m). atom_ok a d)"
        by simp
      then show ?thesis by blast
    next
      case 2
      then have "c # cs = [] @ s' \<and> p' = prev_after p [] \<and> (\<forall>d\<in>set []. atom_ok a d)"
        by simp
      then show ?thesis by blast
    qed
  next
    assume "\<exists>m. c # cs = m @ s' \<and> p' = prev_after p m \<and> (\<forall>c\<in>set m. atom_ok a c)"
    then obtain m where m: "c # cs = m @ s'" "p' = prev_after p m" "\<forall>c\<in>set m. atom_ok a c"
      by blast
    show "(p', s') \<in> set (star_atom a (p, c # cs))"
    proof (cases m)
      case Nil
      with m have "s' = c # cs" "p' = p" by simp_all
      then show ?thesis by simp
    next
      case (Cons d m')
      with m have "d = c" "cs = m' @ s'" "p' = prev_after (Some c) m'"
        "\<forall>c\<in>set m'. atom_ok a c" "atom_ok a c"
        by auto
      then show ?thesis using Cons.IH [of "Some c"] by auto
    qed
  qed
qed

lemma one_atom_iff:
  "(p', s') \<in> set (one_atom a (p, s)) \<longleftrightarrow> (\<exists>c. s = c # s' \<and> p' = Some c \<and> atom_ok a c)"
  by (cases s) (auto simp: one_atom_def)

lemma rmatch_iff:
  "(p', s') \<in> set (rmatch r (p, s)) \<longleftrightarrow>
     (\<exists>m. s = m @ s' \<and> p' = prev_after p m \<and> denotes r p m s')"
proof (induction r arbitrary: p s p' s')
  case Eps
  show ?case by auto
next
  case (Atom a)
  show ?case by (auto simp: one_atom_iff)
next
  case (Opt a)
  show ?case by (auto simp: one_atom_iff)
next
  case (Star a)
  show ?case by (simp add: star_atom_iff)
next
  case Boundary
  show ?case by auto
next
  case (Seq r q)
  have "(p', s') \<in> set (rmatch (Seq r q) (p, s)) \<longleftrightarrow>
        (\<exists>p1 s1. (p1, s1) \<in> set (rmatch r (p, s)) \<and> (p', s') \<in> set (rmatch q (p1, s1)))"
    by auto
  also have "\<dots> \<longleftrightarrow>
        (\<exists>p1 s1. (\<exists>m1. s = m1 @ s1 \<and> p1 = prev_after p m1 \<and> denotes r p m1 s1) \<and>
                 (\<exists>m2. s1 = m2 @ s' \<and> p' = prev_after p1 m2 \<and> denotes q p1 m2 s'))"
    by (simp only: Seq.IH)
  also have "\<dots> \<longleftrightarrow>
        (\<exists>m1 m2. s = (m1 @ m2) @ s' \<and> p' = prev_after p (m1 @ m2) \<and>
                  denotes r p m1 (m2 @ s') \<and> denotes q (prev_after p m1) m2 s')"
    by auto
  also have "\<dots> \<longleftrightarrow> (\<exists>m. s = m @ s' \<and> p' = prev_after p m \<and> denotes (Seq r q) p m s')"
    by (simp only: denotes.simps) blast
  finally show ?case .
next
  case (Alt r q)
  show ?case by (auto simp: Alt.IH)
qed

lemma rmatch_nonempty_iff:
  "rmatch r (p, s) \<noteq> [] \<longleftrightarrow> (\<exists>m suf. s = m @ suf \<and> denotes r p m suf)"
proof -
  have "rmatch r (p, s) \<noteq> [] \<longleftrightarrow> (\<exists>p' s'. (p', s') \<in> set (rmatch r (p, s)))"
    by (cases "rmatch r (p, s)") auto
  then show ?thesis by (simp only: rmatch_iff) blast
qed

lemma search_from_iff:
  "search_from r (p, s) \<longleftrightarrow>
     (\<exists>pre m suf. s = pre @ m @ suf \<and> denotes r (prev_after p pre) m suf)"
proof (induction s arbitrary: p)
  case Nil
  show ?case by (simp add: rmatch_nonempty_iff)
next
  case (Cons c cs)
  show ?case
  proof
    assume "search_from r (p, c # cs)"
    then consider "rmatch r (p, c # cs) \<noteq> []" | "search_from r (Some c, cs)"
      by auto
    then show "\<exists>pre m suf. c # cs = pre @ m @ suf \<and> denotes r (prev_after p pre) m suf"
    proof cases
      case 1
      then obtain m suf where "c # cs = [] @ m @ suf" "denotes r (prev_after p []) m suf"
        by (auto simp: rmatch_nonempty_iff)
      then show ?thesis by blast
    next
      case 2
      then obtain pre m suf where "cs = pre @ m @ suf" "denotes r (prev_after (Some c) pre) m suf"
        using Cons.IH by blast
      then have "c # cs = (c # pre) @ m @ suf" "denotes r (prev_after p (c # pre)) m suf"
        by simp_all
      then show ?thesis by blast
    qed
  next
    assume "\<exists>pre m suf. c # cs = pre @ m @ suf \<and> denotes r (prev_after p pre) m suf"
    then obtain pre m suf where h: "c # cs = pre @ m @ suf" "denotes r (prev_after p pre) m suf"
      by blast
    show "search_from r (p, c # cs)"
    proof (cases pre)
      case Nil
      with h have "rmatch r (p, c # cs) \<noteq> []"
        by (auto simp: rmatch_nonempty_iff)
      then show ?thesis by simp
    next
      case (Cons d pre')
      with h have "cs = pre' @ m @ suf" "denotes r (prev_after (Some c) pre') m suf"
        by auto
      then have "search_from r (Some c, cs)"
        using Cons.IH by blast
      then show ?thesis by simp
    qed
  qed
qed

lemma search_iff:
  "search r text \<longleftrightarrow> (\<exists>pre m suf. text = pre @ m @ suf \<and> matched_by r pre m suf)"
  by (simp add: search_def search_from_iff matched_by_def prev_after_None)

lemma all_dropWhile: "(\<forall>x\<in>set (dropWhile P s). P x) \<longleftrightarrow> (\<forall>x\<in>set s. P x)"
  by (induction s) auto

lemma strip_empty_iff: "strip s = [] \<longleftrightarrow> (\<forall>c\<in>set s. isspace c)"
  by (simp add: strip_def dropWhile_eq_Nil_conv all_dropWhile)

lemma is_po_box_or_empty_iff:
  "is_po_box_or_empty text \<longleftrightarrow>
     (\<forall>c\<in>set text. isspace c) \<or>
     (\<exists>pre m suf. text = pre @ m @ suf \<and> matched_by PO_BOX_PATTERN pre m suf)"
  by (cases "text = []") (auto simp: is_po_box_or_empty_def strip_empty_iff search_iff)

text \<open>
  Claim C8. \<open>isEmptyOrPoBox\<close> is true of \<open>""\<close>, \<open>"   "\<close>, \<open>"P.O. Box 123"\<close>,
  \<open>"PO BOX 45"\<close> and \<open>"Post Office Box 9"\<close> and false of \<open>"123 Main St"\<close>; in general it
  is true exactly when the text is empty or all whitespace, or contains a text that the
  case-insensitive PO-Box pattern matches.
\<close>

theorem is_po_box_or_empty_examples_and_meaning:
  "is_po_box_or_empty '''' \<and> is_po_box_or_empty ''   '' \<and>
   is_po_box_or_empty ''P.O. Box 123'' \<and> is_po_box_or_empty ''PO BOX 45'' \<and>
   is_po_box_or_empty ''Post Office Box 9'' \<and> \<not> is_po_box_or_empty ''123 Main St'' \<and>
   (is_po_box_or_empty text \<longleftrightarrow>
      (\<forall>c\<in>set text. isspace c) \<or>
      (\<exists>pre m suf. text = pre @ m @ suf \<and> matched_by PO_BOX_PATTERN pre m suf))"
proof (intro conjI)
  show "is_po_box_or_empty ''''" by code_simp
  show "is_po_box_or_empty ''   ''" by code_simp
  show "is_po_box_or_empty ''P.O. Box 123''" by code_simp
  show "is_po_box_or_empty ''PO BOX 45''" by code_simp
  show "is_po_box_or_empty ''Post Office Box 9''" by code_simp
  show "\<not> is_po_box_or_empty ''123 Main St''" by code_simp
  show "is_po_box_or_empty text \<longleftrightarrow>
      (\<forall>c\<in>set text. isspace c) \<or>
      (\<exists>pre m suf. text = pre @ m @ suf \<and> matched_by PO_BOX_PATTERN pre m suf)"
    by (rule is_po_box_or_empty_iff)
qed

theorem is_po_box_or_empty_witness:
  "is_po_box_or_empty ''PO Box 1'' \<and> \<not> (\<forall>c\<in>set ''PO Box 1''. isspace c) \<and>
   (\<exists>pre m suf. ''PO Box 1'' = pre @ m @ suf \<and> matched_by PO_BOX_PATTERN pre m suf)"
proof -
  have a: "is_po_box_or_empty ''PO Box 1''" by code_simp
  have b: "\<not> (\<forall>c\<in>set ''PO Box 1''. isspace c)" by (simp add: isspace_def)
  from a b is_po_box_or_empty_examples_and_meaning [of "''PO Box 1''"]
  show ?thesis by blast
qed

section \<open>The PO-Box phrases and the word boundaries\<close>

lemma fullmatch_iff: "fullmatch r text \<longleftrightarrow> denotes r None text []"
proof -
  have "fullmatch r text \<longleftrightarrow> (\<exists>p'. (p', []) \<in> set (rmatch r (None, text)))"
    unfolding fullmatch_def list_ex_iff by force
  then show ?thesis by (simp add: rmatch_iff)
qed

lemma phrase_context_free: "denotes PO_BOX_PHRASE p m f = denotes PO_BOX_PHRASE None m []"
  by (simp only: PO_BOX_PHRASE_def lit_def list.map append.simps seq.simps denotes.simps)

lemma is_word_lower_char:
  assumes "is_word (lower_char c)"
  shows "is_word c"
proof (cases "in_range c 0x41 0x5A \<or> in_range c 0xC0 0xD6 \<or> in_range c 0xD8 0xDE")
  case True
  moreover have "in_range c 0xD8 0xF6" if "in_range c 0xD8 0xDE"
    using that by (simp add: in_range_def)
  ultimately have "in_range c 0x41 0x5A \<or> in_range c 0xC0 0xD6 \<or> in_range c 0xD8 0xF6"
    by blast
  then show ?thesis unfolding is_word_def by blast
next
  case False
  then have "lower_char c = c"
    unfolding lower_char_def by (rule if_not_P)
  with assms show ?thesis by simp
qed

lemma lit_p_word: "lower_char c = lower_char CHR ''p'' \<Longrightarrow> is_word c"
  by (rule is_word_lower_char) (simp add: lower_char_def is_word_def in_range_def)

lemma lit_x_word: "lower_char c = lower_char CHR ''x'' \<Longrightarrow> is_word c"
  by (rule is_word_lower_char) (simp add: lower_char_def is_word_def in_range_def)

lemma begins_with_hd:
  "begins_with l r \<Longrightarrow> denotes r p m f \<Longrightarrow> m \<noteq> [] \<and> lower_char (hd m) = lower_char l"
proof (induction l r arbitrary: p m f rule: begins_with.induct)
  case (2 l r q)
  from "2.prems"(2) obtain m1 m2 where "m = m1 @ m2" "denotes r p m1 (m2 @ f)"
    by auto
  with "2.IH" "2.prems"(1) show ?case by fastforce
next
  case (3 l r q)
  from "3.prems" have "begins_with l r" "begins_with l q" "denotes r p m f \<or> denotes q p m f"
    by simp_all
  with "3.IH" show ?case by blast
qed auto

lemma ends_with_last:
  "ends_with l r \<Longrightarrow> denotes r p m f \<Longrightarrow> m \<noteq> [] \<and> lower_char (last m) = lower_char l"
proof (induction l r arbitrary: p m f rule: ends_with.induct)
  case (2 l r q)
  from "2.prems"(2) obtain m1 m2 where "m = m1 @ m2" "denotes q (prev_after p m1) m2 f"
    by auto
  with "2.IH" "2.prems"(1) show ?case by fastforce
next
  case (3 l r q)
  from "3.prems" have "ends_with l r" "ends_with l q" "denotes r p m f \<or> denotes q p m f"
    by simp_all
  with "3.IH" show ?case by blast
qed auto

lemma phrase_ends:
  assumes "denotes PO_BOX_PHRASE p m f"
  shows "m \<noteq> [] \<and> is_word (hd m) \<and> is_word (last m)"
proof -
  have "begins_with CHR ''p'' PO_BOX_PHRASE" and "ends_with CHR ''x'' PO_BOX_PHRASE"
    by (simp_all add: PO_BOX_PHRASE_def lit_def)
  with assms show ?thesis
    using begins_with_hd ends_with_last lit_p_word lit_x_word by blast
qed

lemma pattern_iff:
  "denotes PO_BOX_PATTERN p m f \<longleftrightarrow>
     denotes PO_BOX_PHRASE None m [] \<and> \<not> is_word_opt p \<and> \<not> is_word_opt (first_opt f)"
proof
  assume "denotes PO_BOX_PATTERN p m f"
  then have b1: "at_boundary (p, m @ f)" and ph: "denotes PO_BOX_PHRASE p m f"
    and b2: "at_boundary (prev_after p m, f)"
    by (auto simp: PO_BOX_PATTERN_def)
  from phrase_ends [OF ph] obtain c u where m: "m = c # u" "is_word c" "is_word (last m)"
    by (cases m) auto
  from b1 m have "\<not> is_word_opt p"
    by (simp add: at_boundary_def first_opt_def is_word_opt_def)
  moreover from b2 m have "\<not> is_word_opt (first_opt f)"
    by (simp add: at_boundary_def prev_after_def is_word_opt_def)
  ultimately show "denotes PO_BOX_PHRASE None m [] \<and> \<not> is_word_opt p \<and> \<not> is_word_opt (first_opt f)"
    using ph phrase_context_free by blast
next
  assume h: "denotes PO_BOX_PHRASE None m [] \<and> \<not> is_word_opt p \<and> \<not> is_word_opt (first_opt f)"
  then have ph: "denotes PO_BOX_PHRASE p m f"
    using phrase_context_free by blast
  from phrase_ends [OF ph] obtain c u where m: "m = c # u" "is_word c" "is_word (last m)"
    by (cases m) auto
  from h m have b1: "at_boundary (p, m @ f)"
    by (simp add: at_boundary_def first_opt_def is_word_opt_def)
  from h m have b2: "at_boundary (prev_after p m, f)"
    by (simp add: at_boundary_def prev_after_def is_word_opt_def)
  have "denotes Boundary p [] (m @ f)"
    using b1 by simp
  moreover have "denotes (Seq PO_BOX_PHRASE Boundary) p m f"
  proof -
    have "m = m @ [] \<and> denotes PO_BOX_PHRASE p m ([] @ f) \<and>
          denotes Boundary (prev_after p m) [] f"
      using ph b2 by simp
    then show ?thesis unfolding denotes.simps by blast
  qed
  ultimately have "m = [] @ m \<and> denotes Boundary p [] (m @ f) \<and>
      denotes (Seq PO_BOX_PHRASE Boundary) (prev_after p []) m f"
    by simp
  then show "denotes PO_BOX_PATTERN p m f"
    unfolding PO_BOX_PATTERN_def denotes.simps(6) [of Boundary] by blast
qed

lemma po_box_phrase_in_text:
  assumes "fullmatch PO_BOX_PHRASE m"
    and "\<not> is_word_opt (last_opt pre)" and "\<not> is_word_opt (first_opt suf)"
  shows "is_po_box_or_empty (pre @ m @ suf)"
proof -
  have "matched_by PO_BOX_PATTERN pre m suf"
    using assms by (simp add: matched_by_def pattern_iff fullmatch_iff)
  then show ?thesis
    unfolding is_po_box_or_empty_iff by blast
qed

text \<open>
  Claim C10, as stated: whenever a PO-Box phrase occurs anywhere inside a text, the text
  is classified as PO Box. The pattern asks for a word boundary on both sides of the
  phrase, so \<open>"PO Box9"\<close>, in which the phrase \<open>"PO Box"\<close> occurs, is not classified.
\<close>

theorem po_box_substring_counterexample:
  "fullmatch PO_BOX_PHRASE ''PO Box'' \<and> ''PO Box9'' = ''PO Box'' @ ''9'' \<and>
   \<not> is_po_box_or_empty ''PO Box9''"
  by code_simp

text \<open>
  Claim C10, amended: whenever a PO-Box phrase occurs in a text with no word character
  (letter, digit, underscore) right before it and none right after it, the text is
  classified as PO Box, whatever else it contains, and a mapping whose only entry has
  such a value does not pass \<open>hasValidAddress\<close>; so for \<open>"123 Main St, P.O. Box 9"\<close>.
\<close>

theorem po_box_phrase_between_boundaries:
  "(fullmatch PO_BOX_PHRASE m \<and> \<not> is_word_opt (last_opt pre) \<and> \<not> is_word_opt (first_opt suf)
      \<longrightarrow> is_po_box_or_empty (pre @ m @ suf) \<and> \<not> has_valid_address [(key, pre @ m @ suf)]) \<and>
   is_po_box_or_empty ''123 Main St, P.O. Box 9'' \<and>
   \<not> has_valid_address [(''Principal Address'', ''123 Main St, P.O. Box 9'')]"
proof (intro conjI impI)
  assume h: "fullmatch PO_BOX_PHRASE m \<and> \<not> is_word_opt (last_opt pre) \<and>
             \<not> is_word_opt (first_opt suf)"
  then show "is_po_box_or_empty (pre @ m @ suf)"
    by (simp add: po_box_phrase_in_text)
  then show "\<not> has_valid_address [(key, pre @ m @ suf)]"
    by simp
next
  show "is_po_box_or_empty ''123 Main St, P.O. Box 9''" by code_simp
  show "\<not> has_valid_address [(''Principal Address'', ''123 Main St, P.O. Box 9'')]"
    by code_simp
qed

theorem po_box_phrase_between_boundaries_witness:
  "fullmatch PO_BOX_PHRASE ''P.O. Box'' \<and> \<not> is_word_opt (last_opt ''Main St, '') \<and>
   \<not> is_word_opt (first_opt '' 9'') \<and>
   is_po_box_or_empty (''Main St, '' @ ''P.O. Box'' @ '' 9'') \<and>
   \<not> has_valid_address [(''Principal Address'', ''Main St, '' @ ''P.O. Box'' @ '' 9'')]"
proof -
  have a: "fullmatch PO_BOX_PHRASE ''P.O. Box''" by code_simp
  have b: "\<not> is_word_opt (last_opt ''Main St, '')" by code_simp
  have c: "\<not> is_word_opt (first_opt '' 9'')" by code_simp
  from a b c
    po_box_phrase_between_boundaries
      [of "''P.O. Box''" "''Main St, ''" "'' 9''" "''Principal Address''"]
  show ?thesis by blast
qed

section \<open>The acceptance gate\<close>

lemma take_prefix_iff: "take (length n) h = n \<longleftrightarrow> (\<exists>suf. h = n @ suf)"
proof
  assume "take (length n) h = n"
  then have "h = n @ drop (length n) h"
    by (metis append_take_drop_id)
  then show "\<exists>suf. h = n @ suf" ..
next
  assume "\<exists>suf. h = n @ suf"
  then show "take (length n) h = n" by auto
qed

lemma occurs_Cons_iff:
  "(\<exists>pre suf. c # cs = pre @ n @ suf) \<longleftrightarrow>
     (\<exists>suf. c # cs = n @ suf) \<or> (\<exists>pre suf. cs = pre @ n @ suf)"
proof
  assume "\<exists>pre suf. c # cs = pre @ n @ suf"
  then obtain pre suf where h: "c # cs = pre @ n @ suf" by blast
  show "(\<exists>suf. c # cs = n @ suf) \<or> (\<exists>pre suf. cs = pre @ n @ suf)"
  proof (cases pre)
    case Nil
    with h have "c # cs = n @ suf" by simp
    then show ?thesis by blast
  next
    case (Cons d pre')
    with h have "cs = pre' @ n @ suf" by simp
    then show ?thesis by blast
  qed
next
  assume "(\<exists>suf. c # cs = n @ suf) \<or> (\<exists>pre suf. cs = pre @ n @ suf)"
  then show "\<exists>pre suf. c # cs = pre @ n @ suf"
  proof
    assume "\<exists>suf. c # cs = n @ suf"
    then obtain suf where "c # cs = [] @ n @ suf" by auto
    then show ?thesis by blast
  next
    assume "\<exists>pre suf. cs = pre @ n @ suf"
    then obtain pre suf where "cs = pre @ n @ suf" by blast
    then have "c # cs = (c # pre) @ n @ suf" by simp
    then show ?thesis by blast
  qed
qed

lemma contains_iff: "contains n h \<longleftrightarrow> (\<exists>pre suf. h = pre @ n @ suf)"
proof (induction h)
  case Nil
  show ?case by simp
next
  case (Cons c cs)
  have "contains n (c # cs) \<longleftrightarrow> (\<exists>suf. c # cs = n @ suf) \<or> contains n cs"
    by (simp only: contains.simps take_prefix_iff)
  then show ?case
    by (simp only: Cons.IH occurs_Cons_iff)
qed

lemma lower_append: "lower (a @ b) = lower a @ lower b"
  by (simp add: lower_def)

lemma contains_lower_iff:
  "contains n (lower key) \<longleftrightarrow> (\<exists>pre mid suf. key = pre @ mid @ suf \<and> lower mid = n)"
proof
  assume "contains n (lower key)"
  then obtain a b where ab: "lower key = a @ n @ b"
    using contains_iff [of n "lower key"] by blast
  define pre where "pre = take (length a) key"
  define mid where "mid = take (length n) (drop (length a) key)"
  define suf where "suf = drop (length n) (drop (length a) key)"
  have k: "key = pre @ mid @ suf"
    unfolding pre_def mid_def suf_def by (simp only: append_take_drop_id)
  have "lower mid = take (length n) (drop (length a) (lower key))"
    unfolding mid_def lower_def by (simp only: take_map drop_map)
  also have "\<dots> = n"
    unfolding ab by simp
  finally have "lower mid = n" .
  with k show "\<exists>pre mid suf. key = pre @ mid @ suf \<and> lower mid = n" by blast
next
  assume "\<exists>pre mid suf. key = pre @ mid @ suf \<and> lower mid = n"
  then obtain pre mid suf where k: "key = pre @ mid @ suf" and m: "lower mid = n" by blast
  have "lower key = lower pre @ n @ lower suf"
    unfolding k lower_append m ..
  then show "contains n (lower key)"
    using contains_iff [of n "lower key"] by blast
qed

lemma not_po_box_not_blank:
  assumes "\<not> is_po_box_or_empty v"
  shows "v \<noteq> [] \<and> \<not> (\<forall>c\<in>set v. isspace c)"
proof -
  from assms have "\<not> (\<forall>c\<in>set v. isspace c)"
    unfolding is_po_box_or_empty_iff by blast
  then show ?thesis by auto
qed

lemma has_valid_address_iff:
  "has_valid_address d \<longleftrightarrow>
     (\<exists>(key, val)\<in>set d. contains ''address'' (lower key) \<and> \<not> is_po_box_or_empty val)"
proof (induction d)
  case Nil
  show ?case by simp
next
  case (Cons kv d)
  obtain key val where kv: "kv = (key, val)" by (cases kv)
  have "val \<noteq> []" if "\<not> is_po_box_or_empty val"
    using that not_po_box_not_blank by blast
  then show ?case using Cons.IH kv by auto
qed

text \<open>
  Claim C7. \<open>hasValidAddress\<close> is true of a mapping exactly when it has a key whose name
  contains "address", in any mix of upper and lower case, with a value that is neither
  empty nor all whitespace nor a PO Box according to \<open>isEmptyOrPoBox\<close>. It is true of
  \<open>{"Mailing Address": "PO Box 1", "Principal Address": "123 Main St"}\<close> and false of
  \<open>{"Mailing Address": "PO Box 1"}\<close>.
\<close>

theorem has_valid_address_characterisation:
  "(has_valid_address d \<longleftrightarrow>
      (\<exists>(key, val)\<in>set d.
         (\<exists>pre mid suf. key = pre @ mid @ suf \<and> lower mid = ''address'') \<and>
         val \<noteq> [] \<and> \<not> (\<forall>c\<in>set val. isspace c) \<and> \<not> is_po_box_or_empty val)) \<and>
   has_valid_address [(''Mailing Address'', ''PO Box 1''),
                      (''Principal Address'', ''123 Main St'')] \<and>
   \<not> has_valid_address [(''Mailing Address'', ''PO Box 1'')]"
proof (intro conjI)
  have "(contains ''address'' (lower key) \<and> \<not> is_po_box_or_empty val) =
        ((\<exists>pre mid suf. key = pre @ mid @ suf \<and> lower mid = ''address'') \<and>
         val \<noteq> [] \<and> \<not> (\<forall>c\<in>set val. isspace c) \<and> \<not> is_po_box_or_empty val)"
    for key val
    unfolding contains_lower_iff using not_po_box_not_blank [of val] by blast
  then show "has_valid_address d \<longleftrightarrow>
     (\<exists>(key, val)\<in>set d.
         (\<exists>pre mid suf. key = pre @ mid @ suf \<and> lower mid = ''address'') \<and>
         val \<noteq> [] \<and> \<not> (\<forall>c\<in>set val. isspace c) \<and> \<not> is_po_box_or_empty val)"
    by (simp only: has_valid_address_iff)
  show "has_valid_address [(''Mailing Address'', ''PO Box 1''),
                           (''Principal Address'', ''123 Main St'')]"
    by code_simp
  show "\<not> has_valid_address [(''Mailing Address'', ''PO Box 1'')]"
    by code_simp
qed

theorem has_valid_address_witness:
  "has_valid_address [(''Mailing ADDRESS'', ''9 Elm Rd'')] \<and>
   (\<exists>(key, val)\<in>set [(''Mailing ADDRESS'', ''9 Elm Rd'')].
      (\<exists>pre mid suf. key = pre @ mid @ suf \<and> lower mid = ''address'') \<and>
      val \<noteq> [] \<and> \<not> (\<forall>c\<in>set val. isspace c) \<and> \<not> is_po_box_or_empty val)"
proof -
  have a: "has_valid_address [(''Mailing ADDRESS'', ''9 Elm Rd'')]" by code_simp
  have "has_valid_address [(''Mailing ADDRESS'', ''9 Elm Rd'')] \<longleftrightarrow>
   (\<exists>(key, val)\<in>set [(''Mailing ADDRESS'', ''9 Elm Rd'')].
      (\<exists>pre mid suf. key = pre @ mid @ suf \<and> lower mid = ''address'') \<and>
      val \<noteq> [] \<and> \<not> (\<forall>c\<in>set val. isspace c) \<and> \<not> is_po_box_or_empty val)"
    using has_valid_address_characterisation [of "[(''Mailing ADDRESS'', ''9 Elm Rd'')]"]
    by (rule conjunct1)
  from this a have
   "\<exists>(key, val)\<in>set [(''Mailing ADDRESS'', ''9 Elm Rd'')].
      (\<exists>pre mid suf. key = pre @ mid @ suf \<and> lower mid = ''address'') \<and>
      val \<noteq> [] \<and> \<not> (\<forall>c\<in>set val. isspace c) \<and> \<not> is_po_box_or_empty val"
    by (rule iffD1)
  with a show ?thesis by (rule conjI)
qed

end
